theory Spec2Isabelle
  imports Main "HOL-Library.AList"
begin

section \<open>The environment: network, parsed pages, trace\<close>

text \<open>
  The scraper talks to the network through \<^verbatim>\<open>aiohttp\<close> and reads markup through
  \<^verbatim>\<open>BeautifulSoup\<close>. Both are libraries outside \<^verbatim>\<open>web_scraper.py\<close>, so they
  enter the model as data and parameters:
  \<^item> one HTTP attempt (the body of the \<^verbatim>\<open>try\<close> in \<^verbatim>\<open>fetch_page\<close>) is a step of a
    network of type \<open>'w http\<close>: from a world \<open>'w\<close> and a request it yields either the
    response text or the message of the exception (any subclass of \<^verbatim>\<open>Exception\<close>)
    that the attempt raised, and the next world;
  \<^item> a parsed page is the list of its tags in document order; each tag carries its
    name, its \<^verbatim>\<open>attrs\<close> dictionary, the value of \<^verbatim>\<open>get_text(strip=True)\<close> and the
    value of \<^verbatim>\<open>.string\<close>. The values of \<^verbatim>\<open>attrs\<close> are what BeautifulSoup holds: a
    string, or a list of strings for a multi-valued attribute (with \<^verbatim>\<open>html.parser\<close>,
    \<^verbatim>\<open>class="a"\<close> is held as the list \<^verbatim>\<open>['a']\<close>). The parser itself is a parameter
    \<open>bs\<close>, taken to accept every page;
  \<^item> everything the code does besides returning (requests, sleeps, log lines, file
    writes) is appended to a trace of events.
\<close>

datatype response = Ok string | Failed string

record request =
  req_url :: string
  req_user_agent :: string
  req_proxy :: "string option"
  req_timeout :: nat

type_synonym 'w http = "'w \<Rightarrow> request \<Rightarrow> response \<times> 'w"

datatype attr_value = Str string | Strs "string list"

type_synonym data_record = "(string \<times> attr_value) list"

type_synonym results = "(string \<times> data_record list) list"

datatype file_content = Json_doc results | Csv_rows "attr_value list list"

datatype event =
    Fetch_page_called string
  | Http_get request
  | Log_warning_attempt_failed nat string string
  | Log_error_fetch_failed string int
  | Sleep nat
  | Log_info_scraping_page string
  | File_written string file_content
  | Log_info_results_saved string
  | Log_error_unsupported_format

text \<open>
  The exceptions that the code of \<^verbatim>\<open>web_scraper.py\<close> lets out of its functions on the
  inputs of the model: the \<^verbatim>\<open>KeyError\<close> of a subscript and the \<^verbatim>\<open>OSError\<close> of
  \<^verbatim>\<open>open\<close>. A page that the parser refuses and a call with a keyword that
  \<^verbatim>\<open>fetch_page\<close> does not have are not inputs of the model, so nothing is proved
  about them.
\<close>

datatype py_error = KeyError string | OSError string

record element =
  name :: string
  attrs :: "(string \<times> attr_value) list"
  get_text_strip :: string
  tag_string :: "string option"

type_synonym soup = "element list"

section \<open>Dictionaries\<close>

text \<open>
  A Python \<^verbatim>\<open>dict\<close> keeps its keys in insertion order, and assigning to a key that is
  present replaces the value in place: that is \<^const>\<open>AList.update\<close> on an association list.
\<close>

definition dict_in :: "'k \<Rightarrow> ('k \<times> 'v) list \<Rightarrow> bool" where
  "dict_in k d = (map_of d k \<noteq> None)"

definition dict_list :: "('k \<times> 'v list) list \<Rightarrow> 'k \<Rightarrow> 'v list" where
  "dict_list d k = (case map_of d k of Some xs \<Rightarrow> xs | None \<Rightarrow> [])"

section \<open>fetch\_page\<close>

definition USER_AGENTS :: "string list" where
  "USER_AGENTS =
     [''Mozilla/5.0 (Windows NT 10.0; Win64; x64) AppleWebKit/537.36 (KHTML, like Gecko) Chrome/91.0.4472.124 Safari/537.36'',
      ''Mozilla/5.0 (Macintosh; Intel Mac OS X 10_15_7) AppleWebKit/605.1.15 (KHTML, like Gecko) Version/14.1.1 Safari/605.1.15'',
      ''Mozilla/5.0 (Windows NT 10.0; Win64; x64; rv:89.0) Gecko/20100101 Firefox/89.0'']"

text \<open>
  The loop \<^verbatim>\<open>for attempt in range(retries)\<close> runs over the list of its indices. Leaving
  the loop without a \<^verbatim>\<open>return\<close> (the empty range) falls off the end of the function,
  which returns \<^verbatim>\<open>None\<close>. The trace of a call of \<^verbatim>\<open>fetch_page\<close> starts with
  \<open>Fetch_page_called\<close>, which records the call itself so that calls can be counted;
  \<open>Http_get\<close> records one attempt.
\<close>

fun fetch_attempts ::
  "'w http \<Rightarrow> request \<Rightarrow> int \<Rightarrow> nat list \<Rightarrow> 'w \<Rightarrow> string option \<times> 'w \<times> event list" where
  "fetch_attempts get rq retries [] w = (None, w, [])"
| "fetch_attempts get rq retries (attempt # rest) w =
     (case get w rq of
        (Ok text, w1) \<Rightarrow> (Some text, w1, [Http_get rq])
      | (Failed e, w1) \<Rightarrow>
          (if int attempt = retries - 1
           then (None, w1,
                 [Http_get rq,
                  Log_warning_attempt_failed (attempt + 1) (req_url rq) e,
                  Log_error_fetch_failed (req_url rq) retries])
           else (case fetch_attempts get rq retries rest w1 of
                   (r, w2, evs) \<Rightarrow>
                     (r, w2,
                      [Http_get rq,
                       Log_warning_attempt_failed (attempt + 1) (req_url rq) e,
                       Sleep (2 ^ attempt)] @ evs))))"

definition headers_user_agent :: "string option \<Rightarrow> string" where
  "headers_user_agent user_agent =
     (case user_agent of
        Some ua \<Rightarrow> (if ua \<noteq> [] then ua else USER_AGENTS ! 0)
      | None \<Rightarrow> USER_AGENTS ! 0)"

definition fetch_request :: "string \<Rightarrow> string option \<Rightarrow> string option \<Rightarrow> request" where
  "fetch_request url user_agent proxy =
     \<lparr>req_url = url, req_user_agent = headers_user_agent user_agent,
      req_proxy = proxy, req_timeout = 10\<rparr>"

definition fetch_page ::
  "'w http \<Rightarrow> string \<Rightarrow> string option \<Rightarrow> string option \<Rightarrow> int \<Rightarrow> 'w
     \<Rightarrow> string option \<times> 'w \<times> event list" where
  "fetch_page get url user_agent proxy retries w =
     (case fetch_attempts get (fetch_request url user_agent proxy) retries
             [0..<nat retries] w of
        (r, w1, evs) \<Rightarrow> (r, w1, Fetch_page_called url # evs))"

section \<open>scrape\_elements\<close>

definition find_all :: "soup \<Rightarrow> string \<Rightarrow> element list" where
  "find_all sp element_type = filter (\<lambda>el. name el = element_type) sp"

definition element_data :: "element \<Rightarrow> string list \<Rightarrow> data_record" where
  "element_data el attributes =
     AList.update ''text'' (Str (get_text_strip el))
       (fold (\<lambda>attr d. case map_of (attrs el) attr of
                          Some v \<Rightarrow> AList.update attr v d
                        | None \<Rightarrow> d)
             attributes [])"

definition scrape_elements :: "soup \<Rightarrow> (string \<times> string list) list \<Rightarrow> results" where
  "scrape_elements sp elements =
     fold (\<lambda>(element_type, attributes) res.
             fold (\<lambda>el res1.
                     AList.update element_type
                       (dict_list res1 element_type @ [element_data el attributes]) res1)
                  (find_all sp element_type)
                  (AList.update element_type [] res))
          elements []"

section \<open>save\_results\<close>

text \<open>
  \<open>can_open\<close> says whether \<^verbatim>\<open>open(name, "w")\<close> succeeds; where it does not, the
  \<^verbatim>\<open>OSError\<close> leaves \<^verbatim>\<open>save_results\<close>, which has no handler. A row of the CSV file
  is the list of the values handed to \<^verbatim>\<open>writerow\<close>.
\<close>

definition csv_rows :: "results \<Rightarrow> attr_value list list" where
  "csv_rows res =
     [Str ''Element'', Str ''Attribute'', Str ''Value''] #
     concat (map (\<lambda>(element_type, els).
                    concat (map (\<lambda>el. map (\<lambda>(attr, v). [Str element_type, Str attr, v]) el)
                                els))
                 res)"

definition save_results ::
  "(string \<Rightarrow> bool) \<Rightarrow> results \<Rightarrow> string \<Rightarrow> string \<Rightarrow> (py_error + unit) \<times> event list" where
  "save_results can_open res output_format filename =
     (if output_format = ''json'' then
        (if can_open (filename @ ''.json'')
         then (Inr (), [File_written (filename @ ''.json'') (Json_doc res),
                        Log_info_results_saved (filename @ ''.json'')])
         else (Inl (OSError (filename @ ''.json'')), []))
      else if output_format = ''csv'' then
        (if can_open (filename @ ''.csv'')
         then (Inr (), [File_written (filename @ ''.csv'') (Csv_rows (csv_rows res)),
                        Log_info_results_saved (filename @ ''.csv'')])
         else (Inl (OSError (filename @ ''.csv'')), []))
      else (Inr (), [Log_error_unsupported_format]))"

section \<open>scrape\_next\_button\<close>

record fetch_kwargs =
  kw_user_agent :: "string option"
  kw_proxy :: "string option"
  kw_retries :: int

definition default_kwargs :: fetch_kwargs where
  "default_kwargs = \<lparr>kw_user_agent = None, kw_proxy = None, kw_retries = 3\<rparr>"

definition merge_results :: "results \<Rightarrow> results \<Rightarrow> results" where
  "merge_results all_results res =
     fold (\<lambda>(element_type, data) acc.
             (let acc1 = (if \<not> dict_in element_type acc
                          then AList.update element_type [] acc else acc)
              in AList.update element_type (dict_list acc1 element_type @ data) acc1))
          res all_results"

definition find_next :: "soup \<Rightarrow> element option" where
  "find_next sp = List.find (\<lambda>el. name el = ''a'' \<and> tag_string el = Some ''Next'') sp"

text \<open>
  One call of the function below is one pass of \<^verbatim>\<open>for _ in range(max_pages)\<close>; the
  first argument after the parameters counts the passes that remain. \<^verbatim>\<open>break\<close> and
  the end of the range both reach \<^verbatim>\<open>return all_results\<close>; a missing \<^verbatim>\<open>href\<close> makes
  \<^verbatim>\<open>next_button["href"]\<close> raise \<^verbatim>\<open>KeyError\<close>, which nothing catches. The keyword
  arguments are the three keyword parameters of \<^verbatim>\<open>fetch_page\<close>. A target held as a
  list is no address: no request can be made for it, every attempt of the next call of
  \<^verbatim>\<open>fetch_page\<close> fails and the loop ends with the records gathered, which is the value
  given here; the trace of that last call is not modelled.
\<close>

fun scrape_pages ::
  "'w http \<Rightarrow> (string \<Rightarrow> soup) \<Rightarrow> (string \<times> string list) list \<Rightarrow> fetch_kwargs
     \<Rightarrow> nat \<Rightarrow> string \<Rightarrow> results \<Rightarrow> 'w \<Rightarrow> (py_error + results) \<times> 'w \<times> event list" where
  "scrape_pages get bs elements kw 0 url all_results w = (Inr all_results, w, [])"
| "scrape_pages get bs elements kw (Suc n) url all_results w =
     (case fetch_page get url (kw_user_agent kw) (kw_proxy kw) (kw_retries kw) w of
        (html_content, w1, evs) \<Rightarrow>
          (case html_content of
             None \<Rightarrow> (Inr all_results, w1, Log_info_scraping_page url # evs)
           | Some html \<Rightarrow>
               (if html = [] then (Inr all_results, w1, Log_info_scraping_page url # evs)
                else
                  (let sp = bs html;
                       res = scrape_elements sp elements;
                       all_results1 = merge_results all_results res
                   in (case find_next sp of
                         None \<Rightarrow> (Inr all_results1, w1, Log_info_scraping_page url # evs)
                       | Some next_button \<Rightarrow>
                           (case map_of (attrs next_button) ''href'' of
                              None \<Rightarrow> (Inl (KeyError ''href''), w1,
                                       Log_info_scraping_page url # evs)
                            | Some (Strs hrefs) \<Rightarrow>
                                (Inr all_results1, w1, Log_info_scraping_page url # evs)
                            | Some (Str href) \<Rightarrow>
                                (case scrape_pages get bs elements kw n href all_results1 w1 of
                                   (r, w2, evs2) \<Rightarrow>
                                     (r, w2, Log_info_scraping_page url # evs @ evs2))))))))"

definition scrape_next_button ::
  "'w http \<Rightarrow> (string \<Rightarrow> soup) \<Rightarrow> string \<Rightarrow> (string \<times> string list) list \<Rightarrow> int
     \<Rightarrow> fetch_kwargs \<Rightarrow> 'w \<Rightarrow> (py_error + results) \<times> 'w \<times> event list" where
  "scrape_next_button get bs base_url elements max_pages kw w =
     scrape_pages get bs elements kw (nat max_pages) base_url [] w"

section \<open>Observations on a run\<close>

text \<open>
  The functions return their value, the next world and the trace; the definitions below
  read a run: its trace, the HTTP attempts in it, the calls of \<^verbatim>\<open>fetch_page\<close> in it and
  the sequence of its backoff waits.
\<close>

definition events :: "'a \<times> 'w \<times> event list \<Rightarrow> event list" where
  "events r = snd (snd r)"

definition attempts :: "event list \<Rightarrow> nat" where
  "attempts evs = length (filter (\<lambda>ev. case ev of Http_get _ \<Rightarrow> True | _ \<Rightarrow> False) evs)"

definition fetch_calls :: "event list \<Rightarrow> nat" where
  "fetch_calls evs =
     length (filter (\<lambda>ev. case ev of Fetch_page_called _ \<Rightarrow> True | _ \<Rightarrow> False) evs)"




text \<open>
  \<open>all_attempts_fail get rq n w\<close>: the \<open>n\<close> attempts made one after the other for the
  request \<open>rq\<close>, starting in world \<open>w\<close>, all raise. Nothing is said of other requests
  or of later moments.
\<close>

fun all_attempts_fail :: "'w http \<Rightarrow> request \<Rightarrow> nat \<Rightarrow> 'w \<Rightarrow> bool" where
  "all_attempts_fail get rq 0 w = True"
| "all_attempts_fail get rq (Suc n) w =
     (case get w rq of
        (Failed e, w1) \<Rightarrow> all_attempts_fail get rq n w1
      | (Ok body, w1) \<Rightarrow> False)"


section \<open>What a crawl is expected to return\<close>

text \<open>
  What \<^verbatim>\<open>scrape_next_button\<close> finds when it looks for the link: no tag \<^verbatim>\<open>a\<close> whose
  string is exactly "Next", such a tag without \<^verbatim>\<open>href\<close>, such a tag and its target,
  or such a tag whose \<^verbatim>\<open>href\<close> is held as a list.
\<close>

datatype next_link = No_next | Next_without_href | Next_to string | Next_to_values "string list"

definition next_link :: "soup \<Rightarrow> next_link" where
  "next_link sp =
     (case find_next sp of
        None \<Rightarrow> No_next
      | Some next_button \<Rightarrow>
          (case map_of (attrs next_button) ''href'' of
             None \<Rightarrow> Next_without_href
           | Some (Strs hrefs) \<Rightarrow> Next_to_values hrefs
           | Some (Str href) \<Rightarrow> Next_to href))"

text \<open>
  The AggregateResult of the pages \<open>sps\<close>, given in crawl order: one bucket per selector
  of the extraction spec, in the order of the spec; in a bucket, page after page, the
  records of the matching tags in document order. Before any page is merged the
  dictionary is empty.
\<close>

definition aggregate :: "(string \<times> string list) list \<Rightarrow> soup list \<Rightarrow> results" where
  "aggregate elements sps =
     (if sps = [] then []
      else map (\<lambda>(element_type, attributes).
                  (element_type,
                   concat (map (\<lambda>sp. map (\<lambda>el. element_data el attributes)
                                         (find_all sp element_type)) sps)))
               elements)"

text \<open>
  \<open>follows get bs kw w url htmls\<close>: starting in world \<open>w\<close> at \<open>url\<close>, the successive
  calls of \<^verbatim>\<open>fetch_page\<close> return the non-empty contents \<open>htmls\<close>, each of which has a
  "Next" link with a target that leads to the following one. The value is the world
  and the target after the last of them.
\<close>

fun follows ::
  "'w http \<Rightarrow> (string \<Rightarrow> soup) \<Rightarrow> fetch_kwargs \<Rightarrow> 'w \<Rightarrow> string \<Rightarrow> string list
     \<Rightarrow> ('w \<times> string) option" where
  "follows get bs kw w url [] = Some (w, url)"
| "follows get bs kw w url (html # htmls) =
     (case fetch_page get url (kw_user_agent kw) (kw_proxy kw) (kw_retries kw) w of
        (content, w1, evs) \<Rightarrow>
          (if content = Some html \<and> html \<noteq> [] then
             (case next_link (bs html) of
                Next_to href \<Rightarrow> follows get bs kw w1 href htmls
              | _ \<Rightarrow> None)
           else None))"

section \<open>Concrete pages and sites\<close>

text \<open>
  The page of the scenario: two \<^verbatim>\<open>h1\<close> tags, the first with \<^verbatim>\<open>class="a"\<close> and text
  "Hi", the second without attributes and with text "Bye"; no link. \<^verbatim>\<open>class\<close> is a
  multi-valued attribute, so the first tag holds the list \<^verbatim>\<open>['a']\<close> for it. The second
  page has a paragraph between the two headings.
\<close>

definition h1_hi :: element where
  "h1_hi = \<lparr>name = ''h1'', attrs = [(''class'', Strs [''a''])], get_text_strip = ''Hi'',
            tag_string = Some ''Hi''\<rparr>"

definition h1_bye :: element where
  "h1_bye = \<lparr>name = ''h1'', attrs = [], get_text_strip = ''Bye'', tag_string = Some ''Bye''\<rparr>"

definition page_two_h1 :: soup where
  "page_two_h1 = [h1_hi, h1_bye]"

definition p_note :: element where
  "p_note = \<lparr>name = ''p'', attrs = [(''class'', Strs [''n'']), (''id'', Str ''p1'')],
             get_text_strip = ''Note'', tag_string = Some ''Note''\<rparr>"

definition page_mixed :: soup where
  "page_mixed = [h1_hi, p_note, h1_bye]"

text \<open>
  A small site. Its pages are named by their contents; \<open>demo_bs\<close> gives the tags of
  each. \<^verbatim>\<open>/1\<close>, \<^verbatim>\<open>/2\<close>, \<^verbatim>\<open>/3\<close> are chained by "Next" links and the third has only a
  link whose string is "next", in lower case; \<^verbatim>\<open>/e\<close> leads to a page with an empty
  body, \<^verbatim>\<open>/f\<close> to an address that always fails, and the "Next" link of \<^verbatim>\<open>/k\<close> has no
  \<^verbatim>\<open>href\<close>.
\<close>

definition heading :: "string \<Rightarrow> element" where
  "heading t = \<lparr>name = ''h1'', attrs = [], get_text_strip = t, tag_string = Some t\<rparr>"

definition link :: "string \<Rightarrow> (string \<times> attr_value) list \<Rightarrow> element" where
  "link t at = \<lparr>name = ''a'', attrs = at, get_text_strip = t, tag_string = Some t\<rparr>"

definition demo_bs :: "string \<Rightarrow> soup" where
  "demo_bs html =
     (if html = ''page 1'' then [h1_hi, link ''Next'' [(''href'', Str ''/2'')]]
      else if html = ''page 2'' then [h1_bye, link ''Next'' [(''href'', Str ''/3'')]]
      else if html = ''page 3'' then [heading ''End'', link ''next'' [(''href'', Str ''/4'')]]
      else if html = ''page e'' then [heading ''E'', link ''Next'' [(''href'', Str ''/empty'')]]
      else if html = ''page f'' then [heading ''F'', link ''Next'' [(''href'', Str ''/gone'')]]
      else if html = ''page k'' then [heading ''K'', link ''Next'' []]
      else [])"

definition demo_site :: "unit http" where
  "demo_site w rq =
     (if req_url rq = ''/1'' then Ok ''page 1''
      else if req_url rq = ''/2'' then Ok ''page 2''
      else if req_url rq = ''/3'' then Ok ''page 3''
      else if req_url rq = ''/e'' then Ok ''page e''
      else if req_url rq = ''/empty'' then Ok []
      else if req_url rq = ''/f'' then Ok ''page f''
      else if req_url rq = ''/k'' then Ok ''page k''
      else Failed ''404 Not Found'', w)"

text \<open>
  A network with a state, the number of requests made so far: the first three raise,
  whatever they ask for, and the later ones are answered.
\<close>

definition flaky_net :: "nat http" where
  "flaky_net w rq = (if w < 3 then Failed ''timed out'' else Ok ''page 3'', Suc w)"

definition h1_class :: "(string \<times> string list) list" where
  "h1_class = [(''h1'', [''class''])]"

section \<open>The fetcher\<close>






text \<open>
  When the attempts of the loop over \<open>[a..<b]\<close>, with \<open>b\<close> at most \<open>retries\<close>, all
  fail, the loop makes one attempt per index and returns \<^verbatim>\<open>None\<close>.
\<close>

lemma fetch_attempts_all_fail:
  "all_attempts_fail get rq (b - a) w \<Longrightarrow> int b \<le> retries \<Longrightarrow> a \<le> b \<Longrightarrow>
   fst (fetch_attempts get rq retries [a..<b] w) = None \<and>
   attempts (events (fetch_attempts get rq retries [a..<b] w)) = b - a"
proof (induction "b - a" arbitrary: a w)
  case 0
  then show ?case by (simp add: attempts_def events_def)
next
  case (Suc n)
  then have ab: "a < b" and n: "n = b - Suc a" and ba: "b - a = Suc n" by auto
  obtain rsp w1 where g: "get w rq = (rsp, w1)" by (cases "get w rq")
  from Suc.prems(1) obtain e where rsp: "rsp = Failed e"
    and rest: "all_attempts_fail get rq n w1"
    unfolding ba by (cases rsp) (simp_all add: g)
  have up: "[a..<b] = a # [Suc a..<b]" using ab by (simp add: upt_conv_Cons)
  have IH: "fst (fetch_attempts get rq retries [Suc a..<b] w1) = None \<and>
     attempts (events (fetch_attempts get rq retries [Suc a..<b] w1)) = b - Suc a"
    using Suc.hyps(1)[OF n _ Suc.prems(2)] rest n ab by simp
  show ?case
    using IH ab Suc.prems(2)
    by (auto simp add: up g rsp attempts_def events_def split: prod.splits)
qed

lemma fetch_page_all_fail:
  "all_attempts_fail get (fetch_request url user_agent proxy) (nat retries) w \<Longrightarrow>
   fst (fetch_page get url user_agent proxy retries w) = None \<and>
   attempts (events (fetch_page get url user_agent proxy retries w)) = nat retries"
  using fetch_attempts_all_fail[of get "fetch_request url user_agent proxy" "nat retries" 0 w
          retries]
  by (cases "0 \<le> retries")
     (auto simp: fetch_page_def attempts_def events_def split: prod.splits)

text \<open>
  C1. The docstring calls \<^verbatim>\<open>retries\<close> the number of retries, which promises
  \<open>retries + 1\<close> attempts; the loop is \<^verbatim>\<open>for attempt in range(retries)\<close>. On an address
  whose every attempt fails, \<open>retries = 3\<close> gives three attempts, not four. With
  \<open>retries = 0\<close> no request is made at all, even for a page that is there, and
  \<^verbatim>\<open>None\<close> is returned without the error line; with \<open>retries = 1\<close> a failed attempt is
  not retried.
\<close>

theorem fetch_page_attempts_off_by_one:
  "all_attempts_fail demo_site (fetch_request ''/gone'' None None) 4 () \<and>
   attempts (events (fetch_page demo_site ''/gone'' None None 3 ())) = 3 \<and>
   fst (fetch_page demo_site ''/gone'' None None 3 ()) = None \<and>
   fetch_page demo_site ''/1'' None None 1 () =
     (Some ''page 1'', (), [Fetch_page_called ''/1'', Http_get (fetch_request ''/1'' None None)]) \<and>
   fetch_page demo_site ''/1'' None None 0 () = (None, (), [Fetch_page_called ''/1'']) \<and>
   attempts (events (fetch_page demo_site ''/gone'' None None 1 ())) = 1"
  by code_simp







section \<open>The extractor\<close>

lemma update_absent: "k \<notin> fst ` set al \<Longrightarrow> AList.update k v al = al @ [(k, v)]"
  by (induction al) auto

lemma attrs_fold_lookup:
  "map_of (fold (\<lambda>attr d. case map_of at attr of Some v \<Rightarrow> AList.update attr v d | None \<Rightarrow> d)
             attributes d) k =
   (if k \<in> set attributes \<and> map_of at k \<noteq> None then map_of at k else map_of d k)"
proof (induction attributes arbitrary: d)
  case Nil
  then show ?case by simp
next
  case (Cons a as)
  show ?case
  proof (cases "map_of at a")
    case None
    then show ?thesis using Cons.IH[of d] by auto
  next
    case (Some v)
    then show ?thesis
      using Cons.IH[of "AList.update a v d"] by (auto simp: update_conv')
  qed
qed

lemma attrs_fold_distinct:
  "distinct (map fst d) \<Longrightarrow>
   distinct (map fst (fold (\<lambda>attr d. case map_of at attr of Some v \<Rightarrow> AList.update attr v d | None \<Rightarrow> d)
             attributes d))"
proof (induction attributes arbitrary: d)
  case Nil
  then show ?case by simp
next
  case (Cons a as)
  then show ?case by (cases "map_of at a") (simp_all add: distinct_update)
qed

text \<open>
  The key "text" of a record always holds the stripped text of the tag: the assignment
  after the loop over the attributes replaces the value of a listed attribute of that
  name. Every other listed attribute has the value the tag holds for it, if it has one.
\<close>

lemma element_data_lookup:
  "map_of (element_data el attributes) k =
     (if k = ''text'' then Some (Str (get_text_strip el))
      else if k \<in> set attributes then map_of (attrs el) k else None)"
  unfolding element_data_def update_conv' attrs_fold_lookup
  by (cases "map_of (attrs el) k") auto

lemma element_data_distinct: "distinct (map fst (element_data el attributes))"
  unfolding element_data_def
  by (rule distinct_update) (rule attrs_fold_distinct, simp)

lemma append_fold:
  "map_of res et = Some xs \<Longrightarrow>
   fold (\<lambda>el res1. AList.update et (dict_list res1 et @ [f el]) res1) els res =
   AList.update et (xs @ map f els) res"
proof (induction els arbitrary: res xs)
  case Nil
  then show ?case by (simp add: update_triv)
next
  case (Cons el els)
  have "map_of (AList.update et (xs @ [f el]) res) et = Some (xs @ [f el])"
    by (simp add: update_conv')
  from Cons.IH[OF this] show ?case
    using Cons.prems by (simp add: dict_list_def)
qed

lemma scrape_step:
  "fold (\<lambda>el res1. AList.update et (dict_list res1 et @ [f el]) res1) els
        (AList.update et [] res) =
   AList.update et (map f els) res"
  using append_fold[of "AList.update et [] res" et "[]" f els]
  by (simp add: update_conv')

lemma scrape_fold:
  "distinct (map fst elements) \<Longrightarrow> fst ` set elements \<inter> fst ` set res = {} \<Longrightarrow>
   fold (\<lambda>(element_type, attributes) res.
             fold (\<lambda>el res1.
                     AList.update element_type
                       (dict_list res1 element_type @ [element_data el attributes]) res1)
                  (find_all sp element_type)
                  (AList.update element_type [] res))
        elements res =
   res @ map (\<lambda>(element_type, attributes).
               (element_type, map (\<lambda>el. element_data el attributes) (find_all sp element_type)))
             elements"
proof (induction elements arbitrary: res)
  case Nil
  then show ?case by simp
next
  case (Cons p ps)
  obtain et attributes where p: "p = (et, attributes)" by (cases p)
  let ?recs = "map (\<lambda>el. element_data el attributes) (find_all sp et)"
  have notin: "et \<notin> fst ` set res" using Cons.prems(2) p by auto
  have d: "distinct (map fst ps)" using Cons.prems(1) by simp
  have disj: "fst ` set ps \<inter> fst ` set (res @ [(et, ?recs)]) = {}"
    using Cons.prems p by auto
  show ?case
    using Cons.IH[OF d disj]
    by (simp add: p scrape_step update_absent[OF notin])
qed

lemma scrape_elements_eq:
  "distinct (map fst elements) \<Longrightarrow>
   scrape_elements sp elements =
     map (\<lambda>(element_type, attributes).
               (element_type, map (\<lambda>el. element_data el attributes) (find_all sp element_type)))
         elements"
  unfolding scrape_elements_def using scrape_fold[of elements "[]" sp] by simp

text \<open>
  C8. The scenario of the specification, the spec \<open>{"h1": ["class"]}\<close> on the page with
  the two \<^verbatim>\<open>h1\<close> tags: \<^verbatim>\<open>element_data[attr] = element[attr]\<close> stores the value as the
  tag holds it, and \<^verbatim>\<open>class\<close> is held as a list, so the first record has
  \<^verbatim>\<open>['a']\<close> under "class" where the return annotation of \<^verbatim>\<open>scrape_elements\<close> and the
  expected result have the string "a". The list reaches the CSV row as it is. Tags
  of another name are left out: the paragraph of the second page changes nothing.
\<close>

theorem scrape_elements_class_is_list:
  "scrape_elements page_two_h1 h1_class =
     [(''h1'', [[(''class'', Strs [''a'']), (''text'', Str ''Hi'')], [(''text'', Str ''Bye'')]])] \<and>
   scrape_elements page_two_h1 h1_class \<noteq>
     [(''h1'', [[(''class'', Str ''a''), (''text'', Str ''Hi'')], [(''text'', Str ''Bye'')]])] \<and>
   scrape_elements page_mixed h1_class =
     [(''h1'', [[(''class'', Strs [''a'']), (''text'', Str ''Hi'')], [(''text'', Str ''Bye'')]])] \<and>
   csv_rows (scrape_elements page_two_h1 h1_class) =
     [[Str ''Element'', Str ''Attribute'', Str ''Value''],
      [Str ''h1'', Str ''class'', Strs [''a'']],
      [Str ''h1'', Str ''text'', Str ''Hi''],
      [Str ''h1'', Str ''text'', Str ''Bye'']]"
  by code_simp

section \<open>The output sink\<close>

text \<open>
  C9. Called with a format that is neither "json" nor "csv", \<^verbatim>\<open>save_results\<close>
  returns normally and its whole trace is the one error line: no file is written,
  whether or not the files could be opened.
\<close>

theorem save_results_unsupported_format:
  "output_format \<noteq> ''json'' \<Longrightarrow> output_format \<noteq> ''csv'' \<Longrightarrow>
   save_results can_open res output_format filename = (Inr (), [Log_error_unsupported_format])"
  by (simp add: save_results_def)

theorem save_results_unsupported_format_witness:
  "''xml'' \<noteq> ''json'' \<and> ''xml'' \<noteq> ''csv'' \<and>
   save_results (\<lambda>f. True) [(''h1'', [[(''text'', Str ''Hi'')]])] ''xml'' ''output'' =
     (Inr (), [Log_error_unsupported_format])"
proof -
  have a: "''xml'' \<noteq> ''json''" and b: "''xml'' \<noteq> ''csv''" by simp_all
  from save_results_unsupported_format[OF a b] a b show ?thesis by simp
qed

section \<open>Merging pages\<close>

lemma update_append_notin:
  "k \<notin> fst ` set xs \<Longrightarrow> AList.update k v (xs @ ys) = xs @ AList.update k v ys"
  by (induction xs) auto

lemma map_of_append_notin:
  "k \<notin> fst ` set xs \<Longrightarrow> map_of (xs @ ys) k = map_of ys k"
  by (induction xs) auto

lemma merge_step:
  "(let acc1 = (if \<not> dict_in et acc then AList.update et [] acc else acc)
    in AList.update et (dict_list acc1 et @ data) acc1) =
   AList.update et (dict_list acc et @ data) acc"
  by (cases "map_of acc et") (simp_all add: dict_in_def dict_list_def update_conv')

lemma merge_results_fold:
  "merge_results all_results res =
     fold (\<lambda>(et, data) acc. AList.update et (dict_list acc et @ data) acc) res all_results"
  unfolding merge_results_def merge_step ..

lemma merge_fresh:
  "distinct (map fst res) \<Longrightarrow> fst ` set res \<inter> fst ` set acc = {} \<Longrightarrow>
   fold (\<lambda>(et, data) acc. AList.update et (dict_list acc et @ data) acc) res acc = acc @ res"
proof (induction res arbitrary: acc)
  case Nil
  then show ?case by simp
next
  case (Cons p ps)
  obtain et data where p: "p = (et, data)" by (cases p)
  have notin: "et \<notin> fst ` set acc" using Cons.prems(2) p by auto
  then have none: "map_of acc et = None" by (simp add: map_of_eq_None_iff)
  have d: "distinct (map fst ps)" using Cons.prems(1) by simp
  have disj: "fst ` set ps \<inter> fst ` set (acc @ [(et, data)]) = {}"
    using Cons.prems p by auto
  show ?case
    using Cons.IH[OF d disj]
    by (simp add: p dict_list_def none update_absent[OF notin])
qed

lemma merge_aligned:
  "distinct (map fst (xs @ ys)) \<Longrightarrow>
   fold (\<lambda>(et, data) acc. AList.update et (dict_list acc et @ data) acc)
        (map (\<lambda>(et, a). (et, g et a)) ys)
        (map (\<lambda>(et, a). (et, f et a @ g et a)) xs @ map (\<lambda>(et, a). (et, f et a)) ys) =
   map (\<lambda>(et, a). (et, f et a @ g et a)) (xs @ ys)"
proof (induction ys arbitrary: xs)
  case Nil
  then show ?case by simp
next
  case (Cons p ps)
  obtain et a where p: "p = (et, a)" by (cases p)
  let ?FG = "\<lambda>(et, a). (et, f et a @ g et a)"
  let ?F = "\<lambda>(et, a). (et, f et a)"
  have notin: "et \<notin> fst ` set (map ?FG xs)"
    using Cons.prems p by (auto simp: image_iff split: prod.splits)
  have look: "dict_list (map ?FG xs @ (et, f et a) # map ?F ps) et = f et a"
    unfolding dict_list_def map_of_append_notin[OF notin] by simp
  have upd: "AList.update et (f et a @ g et a) (map ?FG xs @ (et, f et a) # map ?F ps) =
             map ?FG (xs @ [p]) @ map ?F ps"
    by (simp add: update_append_notin[OF notin] p)
  have d: "distinct (map fst ((xs @ [p]) @ ps))" using Cons.prems by simp
  show ?case
    using Cons.IH[OF d] by (simp add: p look upd del: map_append)
qed

lemma merge_aggregate:
  assumes "distinct (map fst elements)"
  shows "merge_results (aggregate elements sps) (scrape_elements sp elements) =
         aggregate elements (sps @ [sp])"
proof (cases "sps = []")
  case True
  have "fst ` set (scrape_elements sp elements) \<inter> fst ` set ([]::results) = {}" by simp
  moreover have "distinct (map fst (scrape_elements sp elements))"
    using assms by (simp add: scrape_elements_eq[OF assms] comp_def case_prod_unfold)
  ultimately have "merge_results [] (scrape_elements sp elements) = scrape_elements sp elements"
    unfolding merge_results_fold using merge_fresh[of "scrape_elements sp elements" "[]"] by simp
  then show ?thesis
    by (simp add: True aggregate_def scrape_elements_eq[OF assms])
next
  case False
  let ?f = "\<lambda>et a. concat (map (\<lambda>sp. map (\<lambda>el. element_data el a) (find_all sp et)) sps)"
  let ?g = "\<lambda>et a. map (\<lambda>el. element_data el a) (find_all sp et)"
  have "fold (\<lambda>(et, data) acc. AList.update et (dict_list acc et @ data) acc)
        (map (\<lambda>(et, a). (et, ?g et a)) elements)
        (map (\<lambda>(et, a). (et, ?f et a @ ?g et a)) [] @ map (\<lambda>(et, a). (et, ?f et a)) elements) =
   map (\<lambda>(et, a). (et, ?f et a @ ?g et a)) ([] @ elements)"
    by (rule merge_aligned) (use assms in simp)
  then show ?thesis
    unfolding merge_results_fold by (simp add: False aggregate_def scrape_elements_eq[OF assms])
qed

lemma merge_all_aggregate:
  assumes "distinct (map fst elements)"
  shows "fold (\<lambda>html acc. merge_results acc (scrape_elements (bs html) elements)) htmls
              (aggregate elements sps) =
         aggregate elements (sps @ map bs htmls)"
proof (induction htmls arbitrary: sps)
  case Nil
  then show ?case by simp
next
  case (Cons h hs)
  show ?case using Cons.IH[of "sps @ [bs h]"] by (simp add: merge_aggregate[OF assms])
qed

section \<open>The paginator\<close>

lemma fetch_attempts_no_call: "fetch_calls (events (fetch_attempts get rq retries ks w)) = 0"
proof (induction ks arbitrary: w)
  case Nil
  then show ?case by (simp add: fetch_calls_def events_def)
next
  case (Cons k ks)
  obtain rsp w1 where g: "get w rq = (rsp, w1)" by (cases "get w rq")
  show ?case
    using Cons.IH[of w1]
    by (cases rsp) (auto simp: g fetch_calls_def events_def split: prod.splits)
qed

lemma fetch_page_one_call:
  "fetch_calls (events (fetch_page get url user_agent proxy retries w)) = 1"
  using fetch_attempts_no_call[of get "fetch_request url user_agent proxy" retries
          "[0..<nat retries]" w]
  by (auto simp: fetch_page_def fetch_calls_def events_def split: prod.splits)

lemma fetch_page_one_call':
  "fetch_page get url user_agent proxy retries w = (r, w1, evs) \<Longrightarrow> fetch_calls evs = 1"
  using fetch_page_one_call[of get url user_agent proxy retries w] by (simp add: events_def)

lemma scrape_pages_stop:
  assumes "fetch_page get url (kw_user_agent kw) (kw_proxy kw) (kw_retries kw) w = (r, w1, evs)"
    and "r = None \<or> r = Some []"
  shows "scrape_pages get bs elements kw (Suc n) url all_results w =
           (Inr all_results, w1, Log_info_scraping_page url # evs)"
  using assms by auto

lemma scrape_pages_no_next:
  assumes "fetch_page get url (kw_user_agent kw) (kw_proxy kw) (kw_retries kw) w =
             (Some html, w1, evs)"
    and "html \<noteq> []" and "next_link (bs html) = No_next"
  shows "scrape_pages get bs elements kw (Suc n) url all_results w =
           (Inr (merge_results all_results (scrape_elements (bs html) elements)), w1,
            Log_info_scraping_page url # evs)"
  using assms by (auto simp: next_link_def Let_def split: option.splits attr_value.splits)

lemma scrape_pages_no_href:
  assumes "fetch_page get url (kw_user_agent kw) (kw_proxy kw) (kw_retries kw) w =
             (Some html, w1, evs)"
    and "html \<noteq> []" and "next_link (bs html) = Next_without_href"
  shows "scrape_pages get bs elements kw (Suc n) url all_results w =
           (Inl (KeyError ''href''), w1, Log_info_scraping_page url # evs)"
  using assms by (auto simp: next_link_def Let_def split: option.splits attr_value.splits)

lemma scrape_pages_href_values:
  assumes "fetch_page get url (kw_user_agent kw) (kw_proxy kw) (kw_retries kw) w =
             (Some html, w1, evs)"
    and "html \<noteq> []" and "next_link (bs html) = Next_to_values hrefs"
  shows "scrape_pages get bs elements kw (Suc n) url all_results w =
           (Inr (merge_results all_results (scrape_elements (bs html) elements)), w1,
            Log_info_scraping_page url # evs)"
  using assms by (auto simp: next_link_def Let_def split: option.splits attr_value.splits)

lemma scrape_pages_next:
  assumes "fetch_page get url (kw_user_agent kw) (kw_proxy kw) (kw_retries kw) w =
             (Some html, w1, evs)"
    and "html \<noteq> []" and "next_link (bs html) = Next_to href"
  shows "scrape_pages get bs elements kw (Suc n) url all_results w =
           (case scrape_pages get bs elements kw n href
                   (merge_results all_results (scrape_elements (bs html) elements)) w1 of
              (r, w2, evs2) \<Rightarrow> (r, w2, Log_info_scraping_page url # evs @ evs2))"
  using assms by (auto simp: next_link_def Let_def split: option.splits attr_value.splits)

lemma scrape_pages_calls_le:
  "fetch_calls (events (scrape_pages get bs elements kw n url all_results w)) \<le> n"
proof (induction n arbitrary: url all_results w)
  case 0
  then show ?case by (simp add: fetch_calls_def events_def)
next
  case (Suc n)
  obtain r w1 evs where f:
    "fetch_page get url (kw_user_agent kw) (kw_proxy kw) (kw_retries kw) w = (r, w1, evs)"
    by (cases "fetch_page get url (kw_user_agent kw) (kw_proxy kw) (kw_retries kw) w")
  have one: "fetch_calls evs = 1" using fetch_page_one_call'[OF f] .
  have c: "fetch_calls (Log_info_scraping_page url # evs) = 1"
    using one by (simp add: fetch_calls_def)
  show ?case
  proof (cases "r = None \<or> r = Some []")
    case True
    show ?thesis unfolding scrape_pages_stop[OF f True] using c by (simp add: events_def)
  next
    case False
    then obtain html where r: "r = Some html" and ne: "html \<noteq> []" by auto
    note f' = f[unfolded r]
    show ?thesis
    proof (cases "next_link (bs html)")
      case No_next
      show ?thesis unfolding scrape_pages_no_next[where bs=bs, OF f' ne No_next] using c
        by (simp add: events_def)
    next
      case Next_without_href
      show ?thesis unfolding scrape_pages_no_href[where bs=bs, OF f' ne Next_without_href] using c
        by (simp add: events_def)
    next
      case (Next_to_values hrefs)
      show ?thesis unfolding scrape_pages_href_values[where bs=bs, OF f' ne Next_to_values] using c
        by (simp add: events_def)
    next
      case (Next_to href)
      obtain r2 w2 evs2 where s: "scrape_pages get bs elements kw n href
                   (merge_results all_results (scrape_elements (bs html) elements)) w1 =
                   (r2, w2, evs2)"
        by (cases "scrape_pages get bs elements kw n href
                   (merge_results all_results (scrape_elements (bs html) elements)) w1")
      have "fetch_calls evs2 \<le> n"
        using Suc.IH[of href "merge_results all_results (scrape_elements (bs html) elements)" w1]
        by (simp add: s events_def)
      moreover have "fetch_calls (Log_info_scraping_page url # evs @ evs2) =
                       1 + fetch_calls evs2"
        using one by (simp add: fetch_calls_def)
      ultimately show ?thesis
        unfolding scrape_pages_next[where bs=bs, OF f' ne Next_to] by (simp add: s events_def)
    qed
  qed
qed

lemma follows_crawl:
  "follows get bs kw w url htmls = Some (w', url') \<Longrightarrow>
   fst (scrape_pages get bs elements kw (length htmls + m) url all_results w) =
   fst (scrape_pages get bs elements kw m url'
          (fold (\<lambda>html acc. merge_results acc (scrape_elements (bs html) elements))
                htmls all_results) w') \<and>
   fetch_calls (events (scrape_pages get bs elements kw (length htmls + m) url all_results w)) =
   length htmls +
   fetch_calls (events (scrape_pages get bs elements kw m url'
          (fold (\<lambda>html acc. merge_results acc (scrape_elements (bs html) elements))
                htmls all_results) w'))"
proof (induction htmls arbitrary: w url all_results)
  case Nil
  then show ?case by simp
next
  case (Cons html htmls)
  obtain r w1 evs where f:
    "fetch_page get url (kw_user_agent kw) (kw_proxy kw) (kw_retries kw) w = (r, w1, evs)"
    by (cases "fetch_page get url (kw_user_agent kw) (kw_proxy kw) (kw_retries kw) w")
  from Cons.prems f have r: "r = Some html" and ne: "html \<noteq> []"
    by (auto split: if_splits)
  from Cons.prems f r ne obtain href where
    nl: "next_link (bs html) = Next_to href" and
    fo: "follows get bs kw w1 href htmls = Some (w', url')"
    by (cases "next_link (bs html)") auto
  note f' = f[unfolded r]
  let ?acc = "merge_results all_results (scrape_elements (bs html) elements)"
  obtain r2 w2 evs2 where s:
    "scrape_pages get bs elements kw (length htmls + m) href ?acc w1 = (r2, w2, evs2)"
    by (cases "scrape_pages get bs elements kw (length htmls + m) href ?acc w1")
  have one: "fetch_calls evs = 1" using fetch_page_one_call'[OF f] .
  have cnt: "fetch_calls (Log_info_scraping_page url # evs @ evs2) = 1 + fetch_calls evs2"
    using one by (simp add: fetch_calls_def)
  have step: "scrape_pages get bs elements kw (length (html # htmls) + m) url all_results w =
                (r2, w2, Log_info_scraping_page url # evs @ evs2)"
    using scrape_pages_next[where bs=bs and elements=elements and n="length htmls + m" and all_results=all_results, OF f' ne nl]
    by (simp add: s)
  show ?case
    using Cons.IH[OF fo, of ?acc] unfolding step by (simp add: s events_def cnt)
qed

lemma next_link_No_next: "next_link sp = No_next \<longleftrightarrow> find_next sp = None"
  by (simp add: next_link_def split: option.splits attr_value.splits)

lemma crawl_cap:
  assumes "follows get bs kw w base_url htmls = Some (w', url')"
    and "length htmls = nat max_pages"
  shows "fst (scrape_next_button get bs base_url elements max_pages kw w) =
           Inr (fold (\<lambda>html acc. merge_results acc (scrape_elements (bs html) elements))
                     htmls []) \<and>
         fetch_calls (events (scrape_next_button get bs base_url elements max_pages kw w)) =
           length htmls"
  using follows_crawl[OF assms(1), of elements 0 "[]"] assms(2)
  by (simp add: scrape_next_button_def fetch_calls_def events_def)

lemma crawl_stop:
  assumes "follows get bs kw w base_url htmls = Some (w', url')"
    and "length htmls < nat max_pages"
    and "fst (fetch_page get url' (kw_user_agent kw) (kw_proxy kw) (kw_retries kw) w') = None \<or>
         fst (fetch_page get url' (kw_user_agent kw) (kw_proxy kw) (kw_retries kw) w') = Some []"
  shows "fst (scrape_next_button get bs base_url elements max_pages kw w) =
           Inr (fold (\<lambda>html acc. merge_results acc (scrape_elements (bs html) elements))
                     htmls []) \<and>
         fetch_calls (events (scrape_next_button get bs base_url elements max_pages kw w)) =
           length htmls + 1"
proof -
  obtain m where m: "nat max_pages = length htmls + Suc m"
    using assms(2) less_iff_Suc_add by auto
  obtain r w1 evs where f:
    "fetch_page get url' (kw_user_agent kw) (kw_proxy kw) (kw_retries kw) w' = (r, w1, evs)"
    by (cases "fetch_page get url' (kw_user_agent kw) (kw_proxy kw) (kw_retries kw) w'")
  have r: "r = None \<or> r = Some []" using assms(3) f by simp
  have one: "fetch_calls (Log_info_scraping_page url' # evs) = 1"
    using fetch_page_one_call'[OF f] by (simp add: fetch_calls_def)
  show ?thesis
    using follows_crawl[OF assms(1), of elements "Suc m" "[]"] one
    unfolding scrape_next_button_def m scrape_pages_stop[OF f r]
    by (simp add: events_def)
qed

lemma crawl_no_next:
  assumes "follows get bs kw w base_url htmls = Some (w', url')"
    and "length htmls < nat max_pages"
    and "fst (fetch_page get url' (kw_user_agent kw) (kw_proxy kw) (kw_retries kw) w') = Some html"
    and "html \<noteq> []" and "next_link (bs html) = No_next"
  shows "fst (scrape_next_button get bs base_url elements max_pages kw w) =
           Inr (fold (\<lambda>html acc. merge_results acc (scrape_elements (bs html) elements))
                     (htmls @ [html]) []) \<and>
         fetch_calls (events (scrape_next_button get bs base_url elements max_pages kw w)) =
           length htmls + 1"
proof -
  obtain m where m: "nat max_pages = length htmls + Suc m"
    using assms(2) less_iff_Suc_add by auto
  obtain r w1 evs where f0:
    "fetch_page get url' (kw_user_agent kw) (kw_proxy kw) (kw_retries kw) w' = (r, w1, evs)"
    by (cases "fetch_page get url' (kw_user_agent kw) (kw_proxy kw) (kw_retries kw) w'")
  have f: "fetch_page get url' (kw_user_agent kw) (kw_proxy kw) (kw_retries kw) w' =
             (Some html, w1, evs)"
    using assms(3) f0 by simp
  have one: "fetch_calls (Log_info_scraping_page url' # evs) = 1"
    using fetch_page_one_call'[OF f] by (simp add: fetch_calls_def)
  show ?thesis
    using follows_crawl[OF assms(1), of elements "Suc m" "[]"] one
    unfolding scrape_next_button_def m
      scrape_pages_no_next[where bs=bs, OF f assms(4) assms(5)]
    by (simp add: events_def)
qed

text \<open>
  A "Next" link without \<^verbatim>\<open>href\<close>, met within the cap, ends the call with
  \<^verbatim>\<open>KeyError\<close> whatever was gathered before.
\<close>

lemma crawl_no_href:
  assumes "follows get bs kw w base_url htmls = Some (w', url')"
    and "length htmls < nat max_pages"
    and "fst (fetch_page get url' (kw_user_agent kw) (kw_proxy kw) (kw_retries kw) w') = Some html"
    and "html \<noteq> []" and "next_link (bs html) = Next_without_href"
  shows "fst (scrape_next_button get bs base_url elements max_pages kw w) =
           Inl (KeyError ''href'')"
proof -
  obtain m where m: "nat max_pages = length htmls + Suc m"
    using assms(2) less_iff_Suc_add by auto
  obtain r w1 evs where f0:
    "fetch_page get url' (kw_user_agent kw) (kw_proxy kw) (kw_retries kw) w' = (r, w1, evs)"
    by (cases "fetch_page get url' (kw_user_agent kw) (kw_proxy kw) (kw_retries kw) w'")
  have f: "fetch_page get url' (kw_user_agent kw) (kw_proxy kw) (kw_retries kw) w' =
             (Some html, w1, evs)"
    using assms(3) f0 by simp
  show ?thesis
    using follows_crawl[OF assms(1), of elements "Suc m" "[]"]
    unfolding scrape_next_button_def m
      scrape_pages_no_href[where bs=bs, OF f assms(4) assms(5)]
    by simp
qed

lemma crawl_aggregate:
  assumes "distinct (map fst elements)"
  shows "fold (\<lambda>html acc. merge_results acc (scrape_elements (bs html) elements)) htmls [] =
         aggregate elements (map bs htmls)"
  using merge_all_aggregate[OF assms, of bs htmls "[]"] by (simp add: aggregate_def)

text \<open>
  C5. \<^verbatim>\<open>scrape_next_button\<close> never makes more than \<open>max_pages\<close> calls of
  \<^verbatim>\<open>fetch_page\<close>, on any network and any pages. When \<open>max_pages\<close> pages in a row are
  fetched and each has a "Next" link with a target, the crawl ends there: it has made
  exactly \<open>max_pages\<close> calls and returns the records of these pages.
\<close>

theorem scrape_next_button_max_pages:
  "fetch_calls (events (scrape_next_button get bs base_url elements max_pages kw w))
     \<le> nat max_pages \<and>
   (distinct (map fst elements) \<longrightarrow>
    follows get bs kw w base_url htmls = Some (w', url') \<longrightarrow>
    length htmls = nat max_pages \<longrightarrow>
      fst (scrape_next_button get bs base_url elements max_pages kw w) =
        Inr (aggregate elements (map bs htmls)) \<and>
      fetch_calls (events (scrape_next_button get bs base_url elements max_pages kw w)) =
        nat max_pages)"
proof (intro conjI impI)
  show "fetch_calls (events (scrape_next_button get bs base_url elements max_pages kw w))
          \<le> nat max_pages"
    unfolding scrape_next_button_def by (rule scrape_pages_calls_le)
next
  assume d: "distinct (map fst elements)"
    and f: "follows get bs kw w base_url htmls = Some (w', url')"
    and l: "length htmls = nat max_pages"
  note c = crawl_cap[where bs=bs and elements=elements, OF f l]
  show "fst (scrape_next_button get bs base_url elements max_pages kw w) =
          Inr (aggregate elements (map bs htmls))"
    using c crawl_aggregate[OF d, of bs htmls] by simp
  show "fetch_calls (events (scrape_next_button get bs base_url elements max_pages kw w)) =
          nat max_pages"
    using c l by simp
qed

text \<open>
  Three pages chained by "Next" links and \<open>max_pages = 2\<close>: two calls, and the
  records of the first two pages only, although the second page has a "Next" link.
\<close>

theorem scrape_next_button_max_pages_witness:
  "distinct (map fst h1_class) \<and>
   follows demo_site demo_bs default_kwargs () ''/1'' [''page 1'', ''page 2''] = Some ((), ''/3'') \<and>
   length [''page 1'', ''page 2''] = nat 2 \<and>
   next_link (demo_bs ''page 2'') = Next_to ''/3'' \<and>
   fst (scrape_next_button demo_site demo_bs ''/1'' h1_class 2 default_kwargs ()) =
     Inr [(''h1'', [[(''class'', Strs [''a'']), (''text'', Str ''Hi'')], [(''text'', Str ''Bye'')]])] \<and>
   fetch_calls (events (scrape_next_button demo_site demo_bs ''/1'' h1_class 2 default_kwargs ())) = 2"
proof -
  have d: "distinct (map fst h1_class)" by (simp add: h1_class_def)
  have f: "follows demo_site demo_bs default_kwargs () ''/1'' [''page 1'', ''page 2'']
             = Some ((), ''/3'')" by code_simp
  have l: "length [''page 1'', ''page 2''] = nat 2" by simp
  have n: "next_link (demo_bs ''page 2'') = Next_to ''/3''" by code_simp
  have a: "aggregate h1_class (map demo_bs [''page 1'', ''page 2'']) =
             [(''h1'', [[(''class'', Strs [''a'']), (''text'', Str ''Hi'')], [(''text'', Str ''Bye'')]])]"
    by code_simp
  note th = scrape_next_button_max_pages[where get=demo_site and bs=demo_bs and kw=default_kwargs
      and w="()" and base_url="''/1''" and htmls="[''page 1'', ''page 2'']" and max_pages=2
      and elements=h1_class and w'="()" and url'="''/3''"]
  have "fst (scrape_next_button demo_site demo_bs ''/1'' h1_class 2 default_kwargs ()) =
          Inr (aggregate h1_class (map demo_bs [''page 1'', ''page 2''])) \<and>
        fetch_calls (events (scrape_next_button demo_site demo_bs ''/1'' h1_class 2
          default_kwargs ())) = nat 2"
    by (rule mp[OF mp[OF mp[OF conjunct2[OF th] d] f] l])
  then show ?thesis using d f l n a by simp
qed

text \<open>
  C6. When the crawl fetches the pages \<open>htmls\<close>, chained by "Next" links, and then,
  within the cap, a page without a tag \<^verbatim>\<open>a\<close> whose string is exactly "Next", it stops
  at that page: it makes no further call of \<^verbatim>\<open>fetch_page\<close> and returns, for each
  selector, the records of these pages and of that one, page after page in crawl order
  and in document order within a page.
\<close>

theorem scrape_next_button_stops_without_next:
  assumes "distinct (map fst elements)"
    and "follows get bs kw w base_url htmls = Some (w', url')"
    and "int (length htmls) < max_pages"
    and "fst (fetch_page get url' (kw_user_agent kw) (kw_proxy kw) (kw_retries kw) w') = Some html"
    and "html \<noteq> []"
    and "find_next (bs html) = None"
  shows "fst (scrape_next_button get bs base_url elements max_pages kw w) =
           Inr (aggregate elements (map bs (htmls @ [html]))) \<and>
         fetch_calls (events (scrape_next_button get bs base_url elements max_pages kw w)) =
           length htmls + 1"
proof -
  have l: "length htmls < nat max_pages" using assms(3) by simp
  have n: "next_link (bs html) = No_next" using assms(6) by (simp add: next_link_No_next)
  note c = crawl_no_next[where bs=bs and elements=elements, OF assms(2) l assms(4) assms(5) n]
  show ?thesis
    using c crawl_aggregate[OF assms(1), of bs "htmls @ [html]"] by simp
qed

text \<open>
  The third page of the site has a link whose string is "next" in lower case, which is
  not a match.
\<close>

theorem scrape_next_button_stops_without_next_witness:
  "distinct (map fst h1_class) \<and>
   follows demo_site demo_bs default_kwargs () ''/1'' [''page 1'', ''page 2''] = Some ((), ''/3'') \<and>
   int (length [''page 1'', ''page 2'']) < 10 \<and>
   fst (fetch_page demo_site ''/3'' (kw_user_agent default_kwargs) (kw_proxy default_kwargs)
          (kw_retries default_kwargs) ()) = Some ''page 3'' \<and>
   ''page 3'' \<noteq> [] \<and>
   find_next (demo_bs ''page 3'') = None \<and>
   fst (scrape_next_button demo_site demo_bs ''/1'' h1_class 10 default_kwargs ()) =
     Inr [(''h1'', [[(''class'', Strs [''a'']), (''text'', Str ''Hi'')], [(''text'', Str ''Bye'')],
                    [(''text'', Str ''End'')]])] \<and>
   fetch_calls (events (scrape_next_button demo_site demo_bs ''/1'' h1_class 10
     default_kwargs ())) = 3"
proof -
  have d: "distinct (map fst h1_class)" by (simp add: h1_class_def)
  have f: "follows demo_site demo_bs default_kwargs () ''/1'' [''page 1'', ''page 2'']
             = Some ((), ''/3'')" by code_simp
  have l: "int (length [''page 1'', ''page 2'']) < 10" by simp
  have p: "fst (fetch_page demo_site ''/3'' (kw_user_agent default_kwargs)
             (kw_proxy default_kwargs) (kw_retries default_kwargs) ()) = Some ''page 3''"
    by code_simp
  have ne: "''page 3'' \<noteq> []" by simp
  have n: "find_next (demo_bs ''page 3'') = None" by code_simp
  have a: "aggregate h1_class (map demo_bs ([''page 1'', ''page 2''] @ [''page 3''])) =
             [(''h1'', [[(''class'', Strs [''a'']), (''text'', Str ''Hi'')], [(''text'', Str ''Bye'')],
                    [(''text'', Str ''End'')]])]"
    by code_simp
  note th = scrape_next_button_stops_without_next[where get=demo_site and bs=demo_bs
      and kw=default_kwargs and w="()" and base_url="''/1''"
      and htmls="[''page 1'', ''page 2'']" and max_pages=10
      and elements=h1_class and w'="()" and url'="''/3''" and html="''page 3''",
      OF d f l p ne n]
  show ?thesis using th d f l p ne n a by simp
qed

text \<open>
  C7. When the attempts allowed to a call of \<^verbatim>\<open>fetch_page\<close> all fail, the last one
  included, the call returns \<^verbatim>\<open>None\<close>: the failure of an attempt is a value of the
  model, caught by \<^verbatim>\<open>except Exception\<close>, and nothing else leaves the call. When
  \<^verbatim>\<open>fetch_page\<close> returns \<^verbatim>\<open>None\<close> to \<^verbatim>\<open>scrape_next_button\<close> after the pages
  \<open>htmls\<close>, the crawl stops there and returns the records of these pages.
\<close>

theorem fetch_failure_stops_crawl:
  "(all_attempts_fail get (fetch_request url user_agent proxy) (nat retries) w \<longrightarrow>
      fst (fetch_page get url user_agent proxy retries w) = None) \<and>
   (distinct (map fst elements) \<longrightarrow>
    follows get bs kw w0 base_url htmls = Some (w', url') \<longrightarrow>
    int (length htmls) < max_pages \<longrightarrow>
    fst (fetch_page get url' (kw_user_agent kw) (kw_proxy kw) (kw_retries kw) w') = None \<longrightarrow>
      fst (scrape_next_button get bs base_url elements max_pages kw w0) =
        Inr (aggregate elements (map bs htmls)) \<and>
      fetch_calls (events (scrape_next_button get bs base_url elements max_pages kw w0)) =
        length htmls + 1)"
proof (intro conjI impI)
  assume "all_attempts_fail get (fetch_request url user_agent proxy) (nat retries) w"
  then show "fst (fetch_page get url user_agent proxy retries w) = None"
    using fetch_page_all_fail[of get url user_agent proxy retries w] by simp
next
  assume d: "distinct (map fst elements)"
    and f: "follows get bs kw w0 base_url htmls = Some (w', url')"
    and l0: "int (length htmls) < max_pages"
    and p: "fst (fetch_page get url' (kw_user_agent kw) (kw_proxy kw) (kw_retries kw) w') = None"
  have l: "length htmls < nat max_pages" using l0 by simp
  have p': "fst (fetch_page get url' (kw_user_agent kw) (kw_proxy kw) (kw_retries kw) w') = None \<or>
            fst (fetch_page get url' (kw_user_agent kw) (kw_proxy kw) (kw_retries kw) w') = Some []"
    using p by simp
  note c = crawl_stop[where bs=bs and elements=elements, OF f l p']
  show "fst (scrape_next_button get bs base_url elements max_pages kw w0) =
          Inr (aggregate elements (map bs htmls))"
    using c crawl_aggregate[OF d, of bs htmls] by simp
  show "fetch_calls (events (scrape_next_button get bs base_url elements max_pages kw w0)) =
          length htmls + 1"
    using c by simp
qed

text \<open>
  On the site, the address \<^verbatim>\<open>/gone\<close> fails while other pages are served; on the
  network with a state, three attempts fail and a fourth would have been answered.
\<close>

theorem fetch_failure_stops_crawl_witness:
  "all_attempts_fail demo_site
     (fetch_request ''/gone'' (kw_user_agent default_kwargs) (kw_proxy default_kwargs))
     (nat (kw_retries default_kwargs)) () \<and>
   distinct (map fst h1_class) \<and>
   follows demo_site demo_bs default_kwargs () ''/f'' [''page f''] = Some ((), ''/gone'') \<and>
   int (length [''page f'']) < 10 \<and>
   fst (fetch_page demo_site ''/gone'' (kw_user_agent default_kwargs) (kw_proxy default_kwargs)
          (kw_retries default_kwargs) ()) = None \<and>
   fst (scrape_next_button demo_site demo_bs ''/f'' h1_class 10 default_kwargs ()) =
     Inr [(''h1'', [[(''text'', Str ''F'')]])] \<and>
   fetch_calls (events (scrape_next_button demo_site demo_bs ''/f'' h1_class 10
     default_kwargs ())) = 2 \<and>
   all_attempts_fail flaky_net
     (fetch_request ''/3'' (kw_user_agent default_kwargs) (kw_proxy default_kwargs))
     (nat (kw_retries default_kwargs)) 0 \<and>
   fst (flaky_net 3
     (fetch_request ''/3'' (kw_user_agent default_kwargs) (kw_proxy default_kwargs))) =
     Ok ''page 3'' \<and>
   follows flaky_net demo_bs default_kwargs 0 ''/3'' [] = Some (0, ''/3'') \<and>
   fst (fetch_page flaky_net ''/3'' (kw_user_agent default_kwargs) (kw_proxy default_kwargs)
          (kw_retries default_kwargs) 0) = None \<and>
   fst (scrape_next_button flaky_net demo_bs ''/3'' h1_class 10 default_kwargs 0) = Inr []"
proof -
  have d: "distinct (map fst h1_class)" by (simp add: h1_class_def)
  have a: "all_attempts_fail demo_site
     (fetch_request ''/gone'' (kw_user_agent default_kwargs) (kw_proxy default_kwargs))
     (nat (kw_retries default_kwargs)) ()" by code_simp
  have f: "follows demo_site demo_bs default_kwargs () ''/f'' [''page f''] = Some ((), ''/gone'')"
    by code_simp
  have l: "int (length [''page f'']) < 10" by simp
  have g: "aggregate h1_class (map demo_bs [''page f'']) = [(''h1'', [[(''text'', Str ''F'')]])]"
    by code_simp
  note th = fetch_failure_stops_crawl[where get=demo_site and url="''/gone''"
      and user_agent="kw_user_agent default_kwargs" and proxy="kw_proxy default_kwargs"
      and retries="kw_retries default_kwargs" and w="()" and w0="()"
      and elements=h1_class and bs=demo_bs and kw=default_kwargs and base_url="''/f''"
      and htmls="[''page f'']" and w'="()" and url'="''/gone''" and max_pages=10]
  have p: "fst (fetch_page demo_site ''/gone'' (kw_user_agent default_kwargs)
             (kw_proxy default_kwargs) (kw_retries default_kwargs) ()) = None"
    by (rule mp[OF conjunct1[OF th] a])
  have r: "fst (scrape_next_button demo_site demo_bs ''/f'' h1_class 10 default_kwargs ()) =
              Inr (aggregate h1_class (map demo_bs [''page f''])) \<and>
            fetch_calls (events (scrape_next_button demo_site demo_bs ''/f'' h1_class 10
              default_kwargs ())) = length [''page f''] + 1"
    by (rule mp[OF mp[OF mp[OF mp[OF conjunct2[OF th] d] f] l] p])
  have a2: "all_attempts_fail flaky_net
     (fetch_request ''/3'' (kw_user_agent default_kwargs) (kw_proxy default_kwargs))
     (nat (kw_retries default_kwargs)) 0" by code_simp
  have k2: "fst (flaky_net 3
     (fetch_request ''/3'' (kw_user_agent default_kwargs) (kw_proxy default_kwargs))) =
     Ok ''page 3''" by code_simp
  have f2: "follows flaky_net demo_bs default_kwargs 0 ''/3'' [] = Some (0, ''/3'')" by simp
  have l2: "int (length ([]::string list)) < 10" by simp
  have g2: "aggregate h1_class (map demo_bs []) = []" by (simp add: aggregate_def)
  note th2 = fetch_failure_stops_crawl[where get=flaky_net and url="''/3''"
      and user_agent="kw_user_agent default_kwargs" and proxy="kw_proxy default_kwargs"
      and retries="kw_retries default_kwargs" and w=0 and w0=0
      and elements=h1_class and bs=demo_bs and kw=default_kwargs and base_url="''/3''"
      and htmls="[]" and w'=0 and url'="''/3''" and max_pages=10]
  have p2: "fst (fetch_page flaky_net ''/3'' (kw_user_agent default_kwargs)
             (kw_proxy default_kwargs) (kw_retries default_kwargs) 0) = None"
    by (rule mp[OF conjunct1[OF th2] a2])
  have r2: "fst (scrape_next_button flaky_net demo_bs ''/3'' h1_class 10 default_kwargs 0) =
              Inr (aggregate h1_class (map demo_bs [])) \<and>
            fetch_calls (events (scrape_next_button flaky_net demo_bs ''/3'' h1_class 10
              default_kwargs 0)) = length ([]::string list) + 1"
    by (rule mp[OF mp[OF mp[OF mp[OF conjunct2[OF th2] d] f2] l2] p2])
  show ?thesis using a d f l p r g a2 k2 f2 p2 r2 g2 by simp
qed

text \<open>
  C10. When \<^verbatim>\<open>fetch_page\<close> returns the empty string after the pages \<open>htmls\<close>, the
  crawl stops there as it does on \<^verbatim>\<open>None\<close>: it returns the records of these pages,
  with nothing from the empty one, and makes no further call.
\<close>

theorem empty_page_stops_crawl:
  assumes "distinct (map fst elements)"
    and "follows get bs kw w base_url htmls = Some (w', url')"
    and "int (length htmls) < max_pages"
    and "fst (fetch_page get url' (kw_user_agent kw) (kw_proxy kw) (kw_retries kw) w') = Some []"
  shows "fst (scrape_next_button get bs base_url elements max_pages kw w) =
           Inr (aggregate elements (map bs htmls)) \<and>
         fetch_calls (events (scrape_next_button get bs base_url elements max_pages kw w)) =
           length htmls + 1"
proof -
  have l: "length htmls < nat max_pages" using assms(3) by simp
  have p: "fst (fetch_page get url' (kw_user_agent kw) (kw_proxy kw) (kw_retries kw) w') = None \<or>
           fst (fetch_page get url' (kw_user_agent kw) (kw_proxy kw) (kw_retries kw) w') = Some []"
    using assms(4) by simp
  note c = crawl_stop[where bs=bs and elements=elements, OF assms(2) l p]
  show ?thesis using c crawl_aggregate[OF assms(1), of bs htmls] by simp
qed

theorem empty_page_stops_crawl_witness:
  "distinct (map fst h1_class) \<and>
   follows demo_site demo_bs default_kwargs () ''/e'' [''page e''] = Some ((), ''/empty'') \<and>
   int (length [''page e'']) < 10 \<and>
   fst (fetch_page demo_site ''/empty'' (kw_user_agent default_kwargs) (kw_proxy default_kwargs)
          (kw_retries default_kwargs) ()) = Some [] \<and>
   fst (scrape_next_button demo_site demo_bs ''/e'' h1_class 10 default_kwargs ()) =
     Inr [(''h1'', [[(''text'', Str ''E'')]])] \<and>
   fetch_calls (events (scrape_next_button demo_site demo_bs ''/e'' h1_class 10
     default_kwargs ())) = 2"
proof -
  have d: "distinct (map fst h1_class)" by (simp add: h1_class_def)
  have f: "follows demo_site demo_bs default_kwargs () ''/e'' [''page e''] = Some ((), ''/empty'')"
    by code_simp
  have l: "int (length [''page e'']) < 10" by simp
  have p: "fst (fetch_page demo_site ''/empty'' (kw_user_agent default_kwargs)
             (kw_proxy default_kwargs) (kw_retries default_kwargs) ()) = Some []"
    by code_simp
  have a: "aggregate h1_class (map demo_bs [''page e'']) = [(''h1'', [[(''text'', Str ''E'')]])]"
    by code_simp
  note th = empty_page_stops_crawl[where get=demo_site and bs=demo_bs
      and kw=default_kwargs and w="()" and base_url="''/e''"
      and htmls="[''page e'']" and max_pages=10
      and elements=h1_class and w'="()" and url'="''/empty''", OF d f l p]
  show ?thesis using th d f l p a by simp
qed

text \<open>
  C2. A page whose "Next" link has no \<^verbatim>\<open>href\<close>: \<^verbatim>\<open>next_button["href"]\<close> raises
  \<^verbatim>\<open>KeyError\<close>, the call ends with that exception and the records gathered so far
  (here the heading of the page) are not returned.
\<close>

theorem next_without_href_raises:
  "next_link (demo_bs ''page k'') = Next_without_href \<and>
   fst (scrape_next_button demo_site demo_bs ''/k'' h1_class 10 default_kwargs ()) =
     Inl (KeyError ''href'')"
  by code_simp

text \<open>
  C3 as stated fails: called with \<open>max_pages = 0\<close>, \<^verbatim>\<open>scrape_next_button\<close> returns
  the empty dictionary without an error and without a fetch.
\<close>

theorem max_pages_zero_counterexample:
  "(0::int) < 1 \<and>
   scrape_next_button demo_site demo_bs ''/1'' h1_class 0 default_kwargs () = (Inr [], (), [])"
  by (simp add: scrape_next_button_def)

text \<open>
  C3 (as the code has it). \<^verbatim>\<open>scrape_next_button\<close> does not check \<open>max_pages\<close>: with
  \<open>max_pages < 1\<close> it fetches nothing and returns the empty dictionary, without an
  error. It does not raise when pagination ends normally, that is, after a chain of
  pages, at the cap, at a failed or empty fetch, or at a page without a "Next" link.
\<close>

theorem scrape_next_button_no_max_pages_check:
  "(max_pages < 1 \<longrightarrow>
      scrape_next_button get bs base_url elements max_pages kw w = (Inr [], w, [])) \<and>
   (follows get bs kw w base_url htmls = Some (w', url') \<longrightarrow>
      (length htmls = nat max_pages \<or>
       length htmls < nat max_pages \<and>
         (case fst (fetch_page get url' (kw_user_agent kw) (kw_proxy kw) (kw_retries kw) w') of
            None \<Rightarrow> True
          | Some html \<Rightarrow> html = [] \<or> find_next (bs html) = None)) \<longrightarrow>
      (\<exists>r. fst (scrape_next_button get bs base_url elements max_pages kw w) = Inr r))"
proof (intro conjI impI)
  assume "max_pages < 1"
  then show "scrape_next_button get bs base_url elements max_pages kw w = (Inr [], w, [])"
    by (simp add: scrape_next_button_def)
next
  assume f: "follows get bs kw w base_url htmls = Some (w', url')"
    and e: "length htmls = nat max_pages \<or>
       length htmls < nat max_pages \<and>
         (case fst (fetch_page get url' (kw_user_agent kw) (kw_proxy kw) (kw_retries kw) w') of
            None \<Rightarrow> True
          | Some html \<Rightarrow> html = [] \<or> find_next (bs html) = None)"
  let ?p = "fst (fetch_page get url' (kw_user_agent kw) (kw_proxy kw) (kw_retries kw) w')"
  from e consider
      (cap) "length htmls = nat max_pages"
    | (stop) "length htmls < nat max_pages" "?p = None \<or> ?p = Some []"
    | (last) html where "length htmls < nat max_pages" "?p = Some html" "html \<noteq> []"
        "find_next (bs html) = None"
    by (cases ?p) auto
  then show "\<exists>r. fst (scrape_next_button get bs base_url elements max_pages kw w) = Inr r"
  proof cases
    case cap
    show ?thesis
      using crawl_cap[where bs=bs and elements=elements, OF f cap] by simp
  next
    case stop
    show ?thesis
      using crawl_stop[where bs=bs and elements=elements, OF f stop] by simp
  next
    case last
    have n: "next_link (bs html) = No_next" using last(4) by (simp add: next_link_No_next)
    show ?thesis
      using crawl_no_next[where bs=bs and elements=elements, OF f last(1) last(2) last(3) n]
      by simp
  qed
qed

theorem scrape_next_button_no_max_pages_check_witness:
  "(0::int) < 1 \<and>
   scrape_next_button demo_site demo_bs ''/1'' h1_class 0 default_kwargs () = (Inr [], (), []) \<and>
   follows demo_site demo_bs default_kwargs () ''/1'' [''page 1'', ''page 2''] = Some ((), ''/3'') \<and>
   length [''page 1'', ''page 2''] = nat 2 \<and>
   (\<exists>r. fst (scrape_next_button demo_site demo_bs ''/1'' h1_class 2 default_kwargs ()) = Inr r) \<and>
   length [''page 1'', ''page 2''] < nat 10 \<and>
   fst (fetch_page demo_site ''/3'' (kw_user_agent default_kwargs) (kw_proxy default_kwargs)
          (kw_retries default_kwargs) ()) = Some ''page 3'' \<and>
   find_next (demo_bs ''page 3'') = None \<and>
   (\<exists>r. fst (scrape_next_button demo_site demo_bs ''/1'' h1_class 10 default_kwargs ()) = Inr r)"
proof -
  have z: "(0::int) < 1" by simp
  have f: "follows demo_site demo_bs default_kwargs () ''/1'' [''page 1'', ''page 2'']
             = Some ((), ''/3'')" by code_simp
  have l: "length [''page 1'', ''page 2''] = nat 2" by simp
  have l10: "length [''page 1'', ''page 2''] < nat 10" by simp
  have p: "fst (fetch_page demo_site ''/3'' (kw_user_agent default_kwargs)
             (kw_proxy default_kwargs) (kw_retries default_kwargs) ()) = Some ''page 3''"
    by code_simp
  have n: "find_next (demo_bs ''page 3'') = None" by code_simp
  note th0 = scrape_next_button_no_max_pages_check[where get=demo_site and bs=demo_bs
      and kw=default_kwargs and w="()" and base_url="''/1''" and elements=h1_class
      and max_pages=0 and htmls="[]" and w'="()" and url'="''/1''"]
  note th2 = scrape_next_button_no_max_pages_check[where get=demo_site and bs=demo_bs
      and kw=default_kwargs and w="()" and base_url="''/1''" and elements=h1_class
      and max_pages=2 and htmls="[''page 1'', ''page 2'']" and w'="()" and url'="''/3''"]
  note th10 = scrape_next_button_no_max_pages_check[where get=demo_site and bs=demo_bs
      and kw=default_kwargs and w="()" and base_url="''/1''" and elements=h1_class
      and max_pages=10 and htmls="[''page 1'', ''page 2'']" and w'="()" and url'="''/3''"]
  have r0: "scrape_next_button demo_site demo_bs ''/1'' h1_class 0 default_kwargs () =
              (Inr [], (), [])"
    by (rule mp[OF conjunct1[OF th0] z])
  have r2: "\<exists>r. fst (scrape_next_button demo_site demo_bs ''/1'' h1_class 2 default_kwargs ())
              = Inr r"
    by (rule mp[OF mp[OF conjunct2[OF th2] f]]) (simp add: l)
  have r10: "\<exists>r. fst (scrape_next_button demo_site demo_bs ''/1'' h1_class 10 default_kwargs ())
              = Inr r"
    by (rule mp[OF mp[OF conjunct2[OF th10] f]]) (simp add: p n)
  show ?thesis using z r0 f l r2 l10 p n r10 by (intro conjI)
qed

end
